theory Spec2Isabelle
  imports Complex_Main
begin

section \<open>The helm: state machine and per-DOF priority arbitration\<close>

text \<open>
  A shallow embedding of \<^verbatim>\<open>mvp_helm/src/helm/sm.cpp\<close> and of
  \<^verbatim>\<open>mvp_helm/src/helm/helm.cpp\<close>. Mutation of the C++ objects is explicit state
  passing; an operation whose behaviour C++ leaves undefined returns an error value.
\<close>

subsection \<open>Data\<close>

text \<open>
  A degree of freedom is a \<^verbatim>\<open>ctrl::DOF::IDX\<close>, used by the helm as an array index.
\<close>

type_synonym dof = nat

text \<open>
  \<^verbatim>\<open>mvp_control::ControlMode\<close>, an entry of the table of modes that the low level
  controller sends once: the name of the mode and the DOFs it controls.
\<close>

record ControlMode =
  name :: string
  dofs :: "dof list"

text \<open>
  \<^verbatim>\<open>sm_state_t\<close>, with the four fields that the sources read: \<^verbatim>\<open>name\<close>,
  \<^verbatim>\<open>mode\<close>, \<^verbatim>\<open>initial\<close> and \<^verbatim>\<open>transitions\<close> (a sequence of state names
  that is searched front to back).
\<close>

record sm_state_t =
  name :: string
  mode :: string
  initial :: bool
  transitions :: "string list"

text \<open>
  \<^verbatim>\<open>StateMachine\<close>: the declared states in declaration order and the active state,
  which is a copy of a state and not a reference into the list.
\<close>

record StateMachine =
  m_states :: "sm_state_t list"
  m_active_state :: sm_state_t

text \<open>
  What the sources do without any defined result in C++:
  \<^verbatim>\<open>std::vector::front\<close> on an empty vector, and \<^verbatim>\<open>std::array::operator[]\<close> with an
  index that is not below the length of the array.
\<close>

datatype error =
  Undefined_front_of_empty_vector
  | Undefined_array_index_out_of_range dof

subsection \<open>sm.cpp\<close>

definition append_state :: "sm_state_t \<Rightarrow> StateMachine \<Rightarrow> StateMachine" where
  "append_state state sm = sm\<lparr>m_states := m_states sm @ [state]\<rparr>"

text \<open>
  \<^verbatim>\<open>std::find_if\<close> is \<^const>\<open>find\<close>: the first element that satisfies the predicate,
  \<^const>\<open>None\<close> for the end iterator.
\<close>

definition translate_to :: "string \<Rightarrow> StateMachine \<Rightarrow> bool \<times> StateMachine" where
  "translate_to state_name sm =
     (let state_idx = find (\<lambda>val. name val = state_name) (m_states sm);
          transition_idx =
            find (\<lambda>val. val = state_name) (transitions (m_active_state sm))
      in if transition_idx = None then (False, sm)
         else (case state_idx of
                 Some s \<Rightarrow> (True, sm\<lparr>m_active_state := s\<rparr>)
               | None \<Rightarrow> (False, sm)))"

definition get_active_state :: "StateMachine \<Rightarrow> sm_state_t" where
  "get_active_state sm = m_active_state sm"

text \<open>
  \<^verbatim>\<open>StateMachine::initialize\<close>. When no state is marked initial the source takes
  \<^verbatim>\<open>m_states.front()\<close> without looking at the size of the vector.
\<close>

definition StateMachine_initialize :: "StateMachine \<Rightarrow> error + StateMachine" where
  "StateMachine_initialize sm =
     (case find (\<lambda>t. initial t) (m_states sm) of
        Some initial_state \<Rightarrow> Inr (sm\<lparr>m_active_state := initial_state\<rparr>)
      | None \<Rightarrow>
          (case m_states sm of
             [] \<Rightarrow> Inl Undefined_front_of_empty_vector
           | front # _ \<Rightarrow> Inr (sm\<lparr>m_active_state := front\<rparr>)))"


text \<open>
  A default-constructed \<^verbatim>\<open>sm_state_t\<close> and the freshly constructed state machine of
  \<^verbatim>\<open>Helm::initialize\<close>.
\<close>

definition default_state :: sm_state_t where
  "default_state = \<lparr>name = [], mode = [], initial = False, transitions = []\<rparr>"

definition new_StateMachine :: StateMachine where
  "new_StateMachine = \<lparr>m_states = [], m_active_state = default_state\<rparr>"

subsection \<open>Messages, behaviors and the helm object\<close>

text \<open>
  Modelled from the spec: the message type \<^verbatim>\<open>mvp_control::ControlProcess\<close> and the
  conversions \<^verbatim>\<open>utils::control_process_to_array\<close> and
  \<^verbatim>\<open>utils::array_to_control_process_msg\<close> are declared in headers of other packages.
  The spec has the outgoing ControlProcess built from the array of per-DOF values and
  stamped with the mode of the active state, and has arbitration read a proposal at
  the DOFs its behavior claims. So a ControlProcess is held as its mode name and its
  per-DOF values; the conversion to an array reads the first \<open>K\<close> values (zero where the
  message has none), where \<open>K\<close> stands for \<^verbatim>\<open>ctrl::CONTROLLABLE_DOF_LENGTH\<close>.
  The time stamp of the header is left out.
\<close>

record ControlProcess =
  control_mode :: string
  dof_values :: "real list"

definition control_process_to_array :: "nat \<Rightarrow> ControlProcess \<Rightarrow> real list" where
  "control_process_to_array K cp =
     map (\<lambda>d. if d < length (dof_values cp) then dof_values cp ! d else 0) [0..<K]"

definition array_to_control_process_msg :: "real list \<Rightarrow> ControlProcess" where
  "array_to_control_process_msg arr = \<lparr>control_mode = [], dof_values = arr\<rparr>"

text \<open>
  Modelled from the spec: the base class \<^verbatim>\<open>BehaviorBase\<close> is declared in a header
  of its own. Of a behavior object the helm touches the DOFs it claims
  (\<^verbatim>\<open>get_dofs\<close>), the active DOFs it is told (\<^verbatim>\<open>set_active_dofs\<close>) and the feedback it
  is given (\<^verbatim>\<open>register_process_values\<close>); \<open>m_plugin\<close> is whatever else the plugin keeps.
\<close>

record 's BehaviorBase =
  m_dofs :: "dof list"
  m_active_dofs :: "dof list"
  m_process_values :: ControlProcess
  m_plugin :: 's

definition set_active_dofs :: "dof list \<Rightarrow> 's BehaviorBase \<Rightarrow> 's BehaviorBase" where
  "set_active_dofs ds b = b\<lparr>m_active_dofs := ds\<rparr>"

definition register_process_values :: "ControlProcess \<Rightarrow> 's BehaviorBase \<Rightarrow> 's BehaviorBase" where
  "register_process_values pv b = b\<lparr>m_process_values := pv\<rparr>"

definition get_dofs :: "'s BehaviorBase \<Rightarrow> dof list" where
  "get_dofs b = m_dofs b"

text \<open>
  \<^verbatim>\<open>BehaviorContainer\<close>: the behavior object, its virtual method
  \<^verbatim>\<open>request_set_point\<close> (from the object before the call to the returned flag, the set
  point written through the pointer, and the object after the call), and the map
  \<^verbatim>\<open>get_opts().states\<close> from state names to priorities.
\<close>

record 's BehaviorContainer =
  m_behavior :: "'s BehaviorBase"
  request_set_point :: "'s BehaviorBase \<Rightarrow> bool \<times> ControlProcess \<times> 's BehaviorBase"
  opts_states :: "string \<rightharpoonup> int"

text \<open>
  The members of \<^verbatim>\<open>Helm\<close> that \<^verbatim>\<open>f_iterate\<close> reads: the last feedback message (a null
  pointer until the first one arrives), the cached table of controller modes, the
  behavior containers in declaration order, and the state machine.
\<close>

record 's Helm =
  m_controller_process_values :: "ControlProcess option"
  m_controller_modes :: "ControlMode list"
  m_behavior_containers :: "'s BehaviorContainer list"
  m_state_machine :: StateMachine

text \<open>What a tick lets the outside see: a warning on the log, a published command.\<close>

datatype effect = Warn string | Publish ControlProcess

subsection \<open>helm.cpp\<close>

text \<open>
  The loop over \<^verbatim>\<open>get_dofs()\<close> (lines 278 to 286). Both scratch arrays have the
  length \<^verbatim>\<open>CONTROLLABLE_DOF_LENGTH\<close>; \<^verbatim>\<open>dof_priority[dof]\<close> is read first, and
  with an index outside the array the result is undefined.
\<close>

fun merge_dofs ::
  "int \<Rightarrow> real list \<Rightarrow> dof list \<Rightarrow> real list \<times> int list \<Rightarrow> error + (real list \<times> int list)"
where
  "merge_dofs priority bhv_control_array [] acc = Inr acc"
| "merge_dofs priority bhv_control_array (d # ds) (dof_ctrl, dof_priority) =
     (if \<not> d < length dof_priority then Inl (Undefined_array_index_out_of_range d)
      else if priority > dof_priority ! d
        then merge_dofs priority bhv_control_array ds
               (dof_ctrl[d := bhv_control_array ! d], dof_priority[d := priority])
        else merge_dofs priority bhv_control_array ds (dof_ctrl, dof_priority))"

text \<open>
  The body of the loop over the behavior containers (lines 226 to 288) for one
  container: the container after the calls, and the two scratch arrays.
\<close>

definition behavior_step ::
  "nat \<Rightarrow> dof list \<Rightarrow> ControlProcess \<Rightarrow> sm_state_t \<Rightarrow> 's BehaviorContainer
     \<Rightarrow> real list \<times> int list \<Rightarrow> error + ('s BehaviorContainer \<times> (real list \<times> int list))"
where
  "behavior_step K ds pv active_state i acc =
     (let b = register_process_values pv (set_active_dofs ds (m_behavior i));
          (ok, set_point, b') = request_set_point i b;
          i' = i\<lparr>m_behavior := b'\<rparr>
      in if \<not> ok then Inr (i', acc)
         else (case opts_states i (name active_state) of
                 None \<Rightarrow> Inr (i', acc)
               | Some priority \<Rightarrow>
                   if get_dofs b' = [] then Inr (i', acc)
                   else (case merge_dofs priority (control_process_to_array K set_point)
                                (get_dofs b') acc of
                           Inl e \<Rightarrow> Inl e
                         | Inr acc' \<Rightarrow> Inr (i', acc'))))"

fun iterate_behaviors ::
  "nat \<Rightarrow> dof list \<Rightarrow> ControlProcess \<Rightarrow> sm_state_t \<Rightarrow> 's BehaviorContainer list
     \<Rightarrow> real list \<times> int list \<Rightarrow> error + ('s BehaviorContainer list \<times> (real list \<times> int list))"
where
  "iterate_behaviors K ds pv active_state [] acc = Inr ([], acc)"
| "iterate_behaviors K ds pv active_state (i # rest) acc =
     (case behavior_step K ds pv active_state i acc of
        Inl e \<Rightarrow> Inl e
      | Inr (i', acc') \<Rightarrow>
          (case iterate_behaviors K ds pv active_state rest acc' of
             Inl e \<Rightarrow> Inl e
           | Inr (rest', acc'') \<Rightarrow> Inr (i' # rest', acc'')))"

definition mode_warning :: "string \<Rightarrow> string" where
  "mode_warning m =
     ''Active mode '' @ [CHR 0x27] @ m @ [CHR 0x27]
       @ '' can not be found in low level controller configuration! Helm is skipping.''"

text \<open>
  \<^verbatim>\<open>Helm::f_iterate\<close>, one tick: the effects of the tick in order, and the helm
  object after it. The cast of the DOFs of the active mode to \<^verbatim>\<open>ctrl::DOF::IDX\<close> keeps
  each index; the log macro of the warning limits its rate, which is a matter of time
  and left out.
\<close>

definition f_iterate :: "nat \<Rightarrow> 's Helm \<Rightarrow> error + (effect list \<times> 's Helm)" where
  "f_iterate K h =
     (case m_controller_process_values h of
        None \<Rightarrow> Inr ([], h)
      | Some pv \<Rightarrow>
          (let active_state = get_active_state (m_state_machine h)
           in case find (\<lambda>m. ControlMode.name m = mode active_state) (m_controller_modes h) of
                None \<Rightarrow> Inr ([Warn (mode_warning (mode active_state))], h)
              | Some active_mode \<Rightarrow>
                  (case iterate_behaviors K (dofs active_mode) pv active_state
                          (m_behavior_containers h) (replicate K 0, replicate K 0) of
                     Inl e \<Rightarrow> Inl e
                   | Inr (containers, dof_ctrl, dof_priority) \<Rightarrow>
                       (let msg = array_to_control_process_msg dof_ctrl;
                            msg = msg\<lparr>control_mode := mode active_state\<rparr>
                        in Inr ([Publish msg], h\<lparr>m_behavior_containers := containers\<rparr>)))))"

subsection \<open>Startup of the state machine\<close>

text \<open>
  Modelled from the spec: the Parser is a collaborator whose code is elsewhere. The
  spec has it invoke the state callback once for each declared state, in declaration
  order; \<^verbatim>\<open>Helm::initialize\<close> binds that callback to \<^verbatim>\<open>f_generate_sm_states\<close>, which
  is \<^const>\<open>append_state\<close> on the state machine.
\<close>

definition parse_sm_states :: "sm_state_t list \<Rightarrow> StateMachine \<Rightarrow> StateMachine" where
  "parse_sm_states declared sm = foldl (\<lambda>m s. append_state s m) sm declared"


subsection \<open>Vocabulary for one tick\<close>

text \<open>
  What a container answers in a tick with active DOFs \<open>ds\<close> and feedback \<open>pv\<close>: the
  result of \<^verbatim>\<open>request_set_point\<close> after the two informing calls.
\<close>

definition reply ::
  "dof list \<Rightarrow> ControlProcess \<Rightarrow> 's BehaviorContainer
     \<Rightarrow> bool \<times> ControlProcess \<times> 's BehaviorBase"
where
  "reply ds pv i =
     request_set_point i (register_process_values pv (set_active_dofs ds (m_behavior i)))"

text \<open>
  A container is eligible in a state when its behavior returned true and the name of
  the state is a key of its priority map. Its claimed DOFs are \<^verbatim>\<open>get_dofs()\<close> after
  the call, its proposal is the array of its set point, its priority is the entry of
  the map.
\<close>

definition eligible ::
  "sm_state_t \<Rightarrow> dof list \<Rightarrow> ControlProcess \<Rightarrow> 's BehaviorContainer \<Rightarrow> bool"
where
  "eligible st ds pv i \<longleftrightarrow> fst (reply ds pv i) \<and> opts_states i (name st) \<noteq> None"

definition claimed :: "dof list \<Rightarrow> ControlProcess \<Rightarrow> 's BehaviorContainer \<Rightarrow> dof list" where
  "claimed ds pv i = get_dofs (snd (snd (reply ds pv i)))"

definition proposal ::
  "nat \<Rightarrow> dof list \<Rightarrow> ControlProcess \<Rightarrow> 's BehaviorContainer \<Rightarrow> real list"
where
  "proposal K ds pv i = control_process_to_array K (fst (snd (reply ds pv i)))"

definition priority_in :: "sm_state_t \<Rightarrow> 's BehaviorContainer \<Rightarrow> int" where
  "priority_in st i = the (opts_states i (name st))"

definition after_tick ::
  "dof list \<Rightarrow> ControlProcess \<Rightarrow> 's BehaviorContainer \<Rightarrow> 's BehaviorContainer"
where
  "after_tick ds pv i = i\<lparr>m_behavior := snd (snd (reply ds pv i))\<rparr>"

text \<open>
  The entry of the cached mode table for the mode of the active state, as the
  \<^verbatim>\<open>find_if\<close> at the head of \<^verbatim>\<open>f_iterate\<close> computes it; and the condition under
  which no index into the scratch arrays leaves them: every DOF claimed by an eligible
  container is below \<open>K\<close>.
\<close>

definition active_mode :: "'s Helm \<Rightarrow> ControlMode option" where
  "active_mode h =
     find (\<lambda>m. ControlMode.name m = mode (get_active_state (m_state_machine h)))
       (m_controller_modes h)"

definition dofs_in_range ::
  "nat \<Rightarrow> sm_state_t \<Rightarrow> dof list \<Rightarrow> ControlProcess \<Rightarrow> 's BehaviorContainer list \<Rightarrow> bool"
where
  "dofs_in_range K st ds pv cs \<longleftrightarrow>
     (\<forall>i \<in> set cs. eligible st ds pv i \<longrightarrow> (\<forall>d \<in> set (claimed ds pv i). d < K))"

subsection \<open>Example data\<close>

definition state_A :: sm_state_t where
  "state_A = \<lparr>name = ''A'', mode = ''flight'', initial = True, transitions = [''B'']\<rparr>"

definition state_B :: sm_state_t where
  "state_B = \<lparr>name = ''B'', mode = ''hold'', initial = False, transitions = [''A'']\<rparr>"

definition machine_AB :: StateMachine where
  "machine_AB = \<lparr>m_states = [state_A, state_B], m_active_state = state_A\<rparr>"



text \<open>
  A helm with six DOFs (index 4 is pitch, index 5 is yaw) in state \<open>A\<close>, whose mode
  \<open>flight\<close> controls the DOFs 2 and 4. A \<open>steady\<close> behavior returns true with the same
  set point in every tick.
\<close>

definition feedback :: ControlProcess where
  "feedback = \<lparr>control_mode = ''flight'', dof_values = [0, 0, 3, 0, 0, 0]\<rparr>"

definition steady :: "dof list \<Rightarrow> real list \<Rightarrow> (string \<times> int) list \<Rightarrow> unit BehaviorContainer" where
  "steady claim vals prios =
     \<lparr>m_behavior = \<lparr>m_dofs = claim, m_active_dofs = [],
                    m_process_values = \<lparr>control_mode = [], dof_values = []\<rparr>, m_plugin = ()\<rparr>,
      request_set_point = (\<lambda>b. (True, \<lparr>control_mode = [], dof_values = vals\<rparr>, b)),
      opts_states = map_of prios\<rparr>"

definition helm_with :: "unit BehaviorContainer list \<Rightarrow> unit Helm" where
  "helm_with cs =
     \<lparr>m_controller_process_values = Some feedback,
      m_controller_modes = [\<lparr>ControlMode.name = ''hold'', dofs = [2]\<rparr>,
                            \<lparr>ControlMode.name = ''flight'', dofs = [2, 4]\<rparr>],
      m_behavior_containers = cs,
      m_state_machine = machine_AB\<rparr>"

definition mode_flight :: ControlMode where
  "mode_flight = \<lparr>ControlMode.name = ''flight'', dofs = [2, 4]\<rparr>"

definition low_pitch :: "unit BehaviorContainer" where
  "low_pitch = steady [4] [0, 0, 0, 0, 1, 0] [(''A'', 5)]"

definition high_pitch :: "unit BehaviorContainer" where
  "high_pitch = steady [4, 5] [0, 0, 0, 0, 2, 9] [(''A'', 10)]"

definition tie_one :: "unit BehaviorContainer" where
  "tie_one = steady [4] [0, 0, 0, 0, 1, 0] [(''A'', 5)]"

definition tie_two :: "unit BehaviorContainer" where
  "tie_two = steady [4] [0, 0, 0, 0, 2, 0] [(''A'', 5)]"

definition minus_five :: "unit BehaviorContainer" where
  "minus_five = steady [4] [0, 0, 0, 0, 1, 0] [(''A'', - 5)]"

definition minus_one :: "unit BehaviorContainer" where
  "minus_one = steady [4] [0, 0, 0, 0, 2, 0] [(''A'', - 1)]"

definition zero_one :: "unit BehaviorContainer" where
  "zero_one = steady [4] [0, 0, 0, 0, 1, 0] [(''A'', 0)]"

definition zero_two :: "unit BehaviorContainer" where
  "zero_two = steady [4] [0, 0, 0, 0, 2, 0] [(''A'', 0)]"

definition gated :: "unit BehaviorContainer" where
  "gated = steady [4] [0, 0, 0, 0, 7, 0] [(''B'', 100)]"

definition yaw_zero :: "unit BehaviorContainer" where
  "yaw_zero = steady [5] [0, 0, 0, 0, 0, 8] [(''A'', 0)]"

section \<open>Properties of the state machine\<close>


lemma m_active_parse: "m_active_state (parse_sm_states declared sm) = m_active_state sm"
  unfolding parse_sm_states_def
  by (induction declared arbitrary: sm) (simp_all add: append_state_def)




text \<open>
  C3. \<^verbatim>\<open>translate_to\<close> returns true exactly when the requested name is among the
  transitions of the active state and some declared state has that name; the active
  state then becomes the first declared state of that name. In every other case it
  returns false and the state machine is unchanged.
\<close>

theorem translate_to_legal:
  "(fst (translate_to nm sm) \<longleftrightarrow>
      nm \<in> set (transitions (m_active_state sm)) \<and> (\<exists>s \<in> set (m_states sm). name s = nm))
   \<and> (fst (translate_to nm sm) \<longrightarrow>
        (\<exists>s. find (\<lambda>t. name t = nm) (m_states sm) = Some s
             \<and> snd (translate_to nm sm) = sm\<lparr>m_active_state := s\<rparr>))
   \<and> (\<not> fst (translate_to nm sm) \<longrightarrow> snd (translate_to nm sm) = sm)"
proof -
  have tr: "find (\<lambda>val. val = nm) (transitions (m_active_state sm)) = None
              \<longleftrightarrow> nm \<notin> set (transitions (m_active_state sm))"
    by (auto simp: find_None_iff)
  have st: "find (\<lambda>t. name t = nm) (m_states sm) = None
              \<longleftrightarrow> \<not> (\<exists>s \<in> set (m_states sm). name s = nm)"
    by (auto simp: find_None_iff)
  show ?thesis
  proof (cases "find (\<lambda>t. name t = nm) (m_states sm)")
    case None
    with st show ?thesis by (simp add: translate_to_def Let_def)
  next
    case (Some s)
    with st have "\<exists>s \<in> set (m_states sm). name s = nm" by simp
    with Some tr show ?thesis by (simp add: translate_to_def Let_def)
  qed
qed

text \<open>
  From \<open>A\<close> the transition to \<open>B\<close> succeeds; from \<open>B\<close>, which only allows \<open>A\<close>, a second
  request for \<open>B\<close> fails although \<open>B\<close> is declared; a transition that is listed but names
  no declared state fails too.
\<close>

theorem translate_to_legal_witness:
  "fst (translate_to ''B'' machine_AB)
   \<and> snd (translate_to ''B'' machine_AB) = machine_AB\<lparr>m_active_state := state_B\<rparr>
   \<and> \<not> fst (translate_to ''B'' (machine_AB\<lparr>m_active_state := state_B\<rparr>))
   \<and> snd (translate_to ''B'' (machine_AB\<lparr>m_active_state := state_B\<rparr>))
       = machine_AB\<lparr>m_active_state := state_B\<rparr>
   \<and> \<not> fst (translate_to ''C'' (machine_AB\<lparr>m_active_state := state_B\<lparr>transitions := [''C'']\<rparr>\<rparr>))"
  using translate_to_legal [of "''B''" machine_AB]
    translate_to_legal [of "''B''" "machine_AB\<lparr>m_active_state := state_B\<rparr>"]
    translate_to_legal [of "''C''" "machine_AB\<lparr>m_active_state := state_B\<lparr>transitions := [''C'']\<rparr>\<rparr>"]
  by (simp add: machine_AB_def state_A_def state_B_def)

text \<open>
  C4. On a state list that is not empty, \<^verbatim>\<open>StateMachine::initialize\<close> makes the first
  declared state whose initial flag is set the active state; when no flag is set, the
  first declared state.
\<close>

theorem initialize_selects:
  assumes "m_states sm \<noteq> []"
  shows "\<exists>sm'. StateMachine_initialize sm = Inr sm' \<and> m_states sm' = m_states sm
           \<and> ((\<exists>i<length (m_states sm). initial (m_states sm ! i)
                  \<and> (\<forall>j<i. \<not> initial (m_states sm ! j))
                  \<and> m_active_state sm' = m_states sm ! i)
               \<or> ((\<forall>s \<in> set (m_states sm). \<not> initial s)
                  \<and> m_active_state sm' = m_states sm ! 0))"
proof (cases "find (\<lambda>t. initial t) (m_states sm)")
  case None
  then have none: "\<forall>s \<in> set (m_states sm). \<not> initial s"
    by (simp add: find_None_iff)
  from assms obtain x xs where xs: "m_states sm = x # xs"
    by (cases "m_states sm") auto
  from None none xs show ?thesis
    by (simp add: StateMachine_initialize_def)
next
  case (Some s)
  then obtain i where "i < length (m_states sm)" "initial (m_states sm ! i)"
      "s = m_states sm ! i" "\<forall>j<i. \<not> initial (m_states sm ! j)"
    unfolding find_Some_iff by blast
  with Some show ?thesis
    by (auto simp: StateMachine_initialize_def)
qed

theorem initialize_selects_witness:
  "m_states machine_AB \<noteq> []
   \<and> StateMachine_initialize (machine_AB\<lparr>m_active_state := default_state\<rparr>) = Inr machine_AB
   \<and> StateMachine_initialize \<lparr>m_states = [state_B, state_A\<lparr>initial := False\<rparr>], m_active_state = default_state\<rparr>
       = Inr \<lparr>m_states = [state_B, state_A\<lparr>initial := False\<rparr>], m_active_state = state_B\<rparr>"
  using initialize_selects [of machine_AB]
  by (simp add: machine_AB_def state_A_def state_B_def StateMachine_initialize_def)

text \<open>
  C5. On the empty state list \<^verbatim>\<open>StateMachine::initialize\<close> reaches
  \<^verbatim>\<open>m_states.front()\<close> on an empty vector: the source has no check and raises no
  error of its own there.
\<close>

theorem initialize_empty_undefined:
  "StateMachine_initialize new_StateMachine = Inl Undefined_front_of_empty_vector"
  by (simp add: StateMachine_initialize_def new_StateMachine_def)




section \<open>Properties of the arbitration\<close>

subsection \<open>The loop over the claimed DOFs\<close>

lemma merge_dofs_result:
  "merge_dofs pr arr ds (c, p) = Inr (c', p') \<Longrightarrow> length c = length p \<Longrightarrow>
     length c' = length c \<and> length p' = length p \<and>
     (\<forall>d<length p. if d \<in> set ds \<and> pr > p ! d
                    then c' ! d = arr ! d \<and> p' ! d = pr
                    else c' ! d = c ! d \<and> p' ! d = p ! d)"
proof (induction ds arbitrary: c p)
  case Nil
  then show ?case by simp
next
  case (Cons d0 ds)
  from Cons.prems(1) have in_range: "d0 < length p"
    by (simp split: if_splits)
  show ?case
  proof (cases "pr > p ! d0")
    case True
    with Cons.prems in_range
    have run: "merge_dofs pr arr ds (c[d0 := arr ! d0], p[d0 := pr]) = Inr (c', p')"
      by simp
    have len: "length (c[d0 := arr ! d0]) = length (p[d0 := pr])"
      using Cons.prems(2) by simp
    note IH = Cons.IH [OF run len]
    show ?thesis
    proof (intro conjI allI impI)
      show "length c' = length c" using IH by simp
      show "length p' = length p" using IH by simp
      fix d assume d: "d < length p"
      with IH have step: "if d \<in> set ds \<and> pr > p[d0 := pr] ! d
                    then c' ! d = arr ! d \<and> p' ! d = pr
                    else c' ! d = c[d0 := arr ! d0] ! d \<and> p' ! d = p[d0 := pr] ! d"
        by simp
      show "if d \<in> set (d0 # ds) \<and> pr > p ! d
                    then c' ! d = arr ! d \<and> p' ! d = pr
                    else c' ! d = c ! d \<and> p' ! d = p ! d"
      proof (cases "d = d0")
        case True
        with step d \<open>pr > p ! d0\<close> Cons.prems(2) show ?thesis by simp
      next
        case False
        with step d show ?thesis by simp
      qed
    qed
  next
    case False
    with Cons.prems in_range
    have run: "merge_dofs pr arr ds (c, p) = Inr (c', p')"
      by simp
    note IH = Cons.IH [OF run Cons.prems(2)]
    show ?thesis
    proof (intro conjI allI impI)
      show "length c' = length c" using IH by simp
      show "length p' = length p" using IH by simp
      fix d assume d: "d < length p"
      with IH have step: "if d \<in> set ds \<and> pr > p ! d
                    then c' ! d = arr ! d \<and> p' ! d = pr
                    else c' ! d = c ! d \<and> p' ! d = p ! d"
        by simp
      show "if d \<in> set (d0 # ds) \<and> pr > p ! d
                    then c' ! d = arr ! d \<and> p' ! d = pr
                    else c' ! d = c ! d \<and> p' ! d = p ! d"
      proof (cases "d = d0")
        case True
        with step False show ?thesis by simp
      next
        case False
        with step show ?thesis by simp
      qed
    qed
  qed
qed

lemma merge_dofs_defined:
  "\<forall>d \<in> set ds. d < length p \<Longrightarrow> \<exists>acc'. merge_dofs pr arr ds (c, p) = Inr acc'"
  by (induction ds arbitrary: c p) auto

lemma merge_dofs_undefined:
  "\<exists>d \<in> set ds. \<not> d < length p \<Longrightarrow> length c = length p \<Longrightarrow> \<exists>e. merge_dofs pr arr ds (c, p) = Inl e"
  by (induction ds arbitrary: c p) auto


lemma behavior_step_unfold:
  "behavior_step K ds pv st i acc =
     (if eligible st ds pv i \<and> claimed ds pv i \<noteq> []
      then (case merge_dofs (priority_in st i) (proposal K ds pv i) (claimed ds pv i) acc of
              Inl e \<Rightarrow> Inl e
            | Inr acc' \<Rightarrow> Inr (after_tick ds pv i, acc'))
      else Inr (after_tick ds pv i, acc))"
proof -
  obtain ok sp b' where r: "reply ds pv i = (ok, sp, b')"
    by (cases "reply ds pv i") auto
  then have r': "request_set_point i
      (register_process_values pv (set_active_dofs ds (m_behavior i))) = (ok, sp, b')"
    by (simp add: reply_def)
  show ?thesis
    by (simp add: behavior_step_def eligible_def claimed_def proposal_def priority_in_def
        after_tick_def r r' Let_def split: option.splits sum.splits)
qed

lemma behavior_step_result:
  assumes "behavior_step K ds pv st i (c, p) = Inr (i', (c', p'))"
    and "length c = length p"
  shows "i' = after_tick ds pv i \<and> length c' = length c \<and> length p' = length p \<and>
     (\<forall>d<length p. if eligible st ds pv i \<and> d \<in> set (claimed ds pv i) \<and> priority_in st i > p ! d
                    then c' ! d = proposal K ds pv i ! d \<and> p' ! d = priority_in st i
                    else c' ! d = c ! d \<and> p' ! d = p ! d)"
proof (cases "eligible st ds pv i \<and> claimed ds pv i \<noteq> []")
  case True
  with assms(1) have m: "merge_dofs (priority_in st i) (proposal K ds pv i) (claimed ds pv i) (c, p)
      = Inr (c', p')" and i': "i' = after_tick ds pv i"
    by (auto simp: behavior_step_unfold split: sum.splits)
  from merge_dofs_result [OF m assms(2)] i' True show ?thesis by simp
next
  case False
  with assms(1) have "i' = after_tick ds pv i" "c' = c" "p' = p"
    by (auto simp: behavior_step_unfold)
  with False show ?thesis by auto
qed

lemma behavior_step_defined:
  assumes "eligible st ds pv i \<longrightarrow> (\<forall>d \<in> set (claimed ds pv i). d < length p)"
  shows "\<exists>acc'. behavior_step K ds pv st i (c, p) = Inr (after_tick ds pv i, acc')"
proof (cases "eligible st ds pv i \<and> claimed ds pv i \<noteq> []")
  case True
  with assms have "\<forall>d \<in> set (claimed ds pv i). d < length p" by simp
  from merge_dofs_defined [OF this] obtain acc' where
    "merge_dofs (priority_in st i) (proposal K ds pv i) (claimed ds pv i) (c, p) = Inr acc'"
    by blast
  with True show ?thesis by (simp add: behavior_step_unfold)
next
  case False
  then show ?thesis by (auto simp: behavior_step_unfold)
qed

subsection \<open>The loop over the behavior containers\<close>

lemma iterate_behaviors_Cons_Inr:
  assumes "iterate_behaviors K ds pv st (i # rest) (c, p) = Inr (cs', (c', p'))"
  obtains i' c1 p1 rest' where
    "behavior_step K ds pv st i (c, p) = Inr (i', (c1, p1))"
    "iterate_behaviors K ds pv st rest (c1, p1) = Inr (rest', (c', p'))"
    "cs' = i' # rest'"
  using assms by (auto split: sum.splits)

lemma iterate_behaviors_lengths:
  "iterate_behaviors K ds pv st cs (c, p) = Inr (cs', (c', p')) \<Longrightarrow> length c = length p \<Longrightarrow>
     cs' = map (after_tick ds pv) cs \<and> length c' = length c \<and> length p' = length p"
proof (induction cs arbitrary: c p cs')
  case Nil
  then show ?case by simp
next
  case (Cons i rest)
  from Cons.prems(1) obtain i' c1 p1 rest' where
    s: "behavior_step K ds pv st i (c, p) = Inr (i', (c1, p1))"
    and r: "iterate_behaviors K ds pv st rest (c1, p1) = Inr (rest', (c', p'))"
    and cs': "cs' = i' # rest'"
    by (rule iterate_behaviors_Cons_Inr)
  from behavior_step_result [OF s Cons.prems(2)]
  have 1: "i' = after_tick ds pv i" "length c1 = length c" "length p1 = length p"
    by simp_all
  with Cons.prems(2) have "length c1 = length p1" by simp
  from Cons.IH [OF r this] 1 cs' show ?case by simp
qed

lemma iterate_behaviors_defined:
  "\<forall>i \<in> set cs. eligible st ds pv i \<longrightarrow> (\<forall>d \<in> set (claimed ds pv i). d < length p) \<Longrightarrow>
   length c = length p \<Longrightarrow>
     \<exists>c' p'. iterate_behaviors K ds pv st cs (c, p) = Inr (map (after_tick ds pv) cs, (c', p'))"
proof (induction cs arbitrary: c p)
  case Nil
  then show ?case by simp
next
  case (Cons i rest)
  from Cons.prems(1)
  have "eligible st ds pv i \<longrightarrow> (\<forall>d \<in> set (claimed ds pv i). d < length p)" by simp
  from behavior_step_defined [OF this] obtain c1 p1 where
    s: "behavior_step K ds pv st i (c, p) = Inr (after_tick ds pv i, (c1, p1))"
    by fastforce
  from behavior_step_result [OF s Cons.prems(2)]
  have len: "length c1 = length c" "length p1 = length p" by simp_all
  with Cons.prems have
    "\<forall>i \<in> set rest. eligible st ds pv i \<longrightarrow> (\<forall>d \<in> set (claimed ds pv i). d < length p1)"
    "length c1 = length p1"
    by simp_all
  from Cons.IH [OF this] obtain c' p' where
    "iterate_behaviors K ds pv st rest (c1, p1) = Inr (map (after_tick ds pv) rest, (c', p'))"
    by blast
  with s show ?case by simp
qed

lemma iterate_behaviors_provenance:
  "iterate_behaviors K ds pv st cs (c, p) = Inr (cs', (c', p')) \<Longrightarrow> length c = length p \<Longrightarrow>
   d < length p \<Longrightarrow>
     (c' ! d = c ! d \<and> p' ! d = p ! d) \<or>
     (\<exists>i \<in> set cs. eligible st ds pv i \<and> d \<in> set (claimed ds pv i)
         \<and> priority_in st i = p' ! d \<and> p ! d < p' ! d \<and> c' ! d = proposal K ds pv i ! d)"
proof (induction cs arbitrary: c p cs')
  case Nil
  then show ?case by simp
next
  case (Cons i rest)
  from Cons.prems(1) obtain i' c1 p1 rest' where
    s: "behavior_step K ds pv st i (c, p) = Inr (i', (c1, p1))"
    and r: "iterate_behaviors K ds pv st rest (c1, p1) = Inr (rest', (c', p'))"
    by (rule iterate_behaviors_Cons_Inr)
  note B = behavior_step_result [OF s Cons.prems(2)]
  then have len: "length c1 = length p1" "d < length p1"
    using Cons.prems by simp_all
  from B Cons.prems(3)
  have first: "if eligible st ds pv i \<and> d \<in> set (claimed ds pv i) \<and> priority_in st i > p ! d
                    then c1 ! d = proposal K ds pv i ! d \<and> p1 ! d = priority_in st i
                    else c1 ! d = c ! d \<and> p1 ! d = p ! d"
    by blast
  then have mono: "p ! d \<le> p1 ! d" by (auto split: if_splits)
  from Cons.IH [OF r len]
  consider (same) "c' ! d = c1 ! d" "p' ! d = p1 ! d"
    | (later) j where "j \<in> set rest" "eligible st ds pv j" "d \<in> set (claimed ds pv j)"
        "priority_in st j = p' ! d" "p1 ! d < p' ! d" "c' ! d = proposal K ds pv j ! d"
    by blast
  then show ?case
  proof cases
    case same
    with first show ?thesis by (auto split: if_splits)
  next
    case later
    with mono have "p ! d < p' ! d" by simp
    with later show ?thesis by auto
  qed
qed

lemma iterate_behaviors_mono:
  assumes "iterate_behaviors K ds pv st cs (c, p) = Inr (cs', (c', p'))"
    and "length c = length p" and "d < length p"
  shows "p ! d \<le> p' ! d"
  using iterate_behaviors_provenance [OF assms] by auto

lemma iterate_behaviors_keep:
  assumes "iterate_behaviors K ds pv st cs (c, p) = Inr (cs', (c', p'))"
    and "length c = length p" and "d < length p"
    and "\<forall>i \<in> set cs. eligible st ds pv i \<longrightarrow> d \<in> set (claimed ds pv i)
            \<longrightarrow> priority_in st i \<le> p ! d"
  shows "c' ! d = c ! d \<and> p' ! d = p ! d"
  using iterate_behaviors_provenance [OF assms(1-3)] assms(4) by fastforce

lemma iterate_behaviors_below:
  assumes "iterate_behaviors K ds pv st cs (c, p) = Inr (cs', (c', p'))"
    and "length c = length p" and "d < length p"
    and "p ! d < m"
    and "\<forall>i \<in> set cs. eligible st ds pv i \<longrightarrow> d \<in> set (claimed ds pv i)
            \<longrightarrow> priority_in st i < m"
  shows "p' ! d < m"
  using iterate_behaviors_provenance [OF assms(1-3)] assms(4,5) by fastforce

lemma behavior_step_dominates:
  assumes "behavior_step K ds pv st i (c, p) = Inr (i', (c', p'))"
    and "length c = length p" and "d < length p"
  shows "p ! d \<le> p' ! d
       \<and> (eligible st ds pv i \<longrightarrow> d \<in> set (claimed ds pv i) \<longrightarrow> priority_in st i \<le> p' ! d)"
  using behavior_step_result [OF assms(1,2)] assms(3) by (auto split: if_splits)

lemma iterate_behaviors_dominates:
  "iterate_behaviors K ds pv st cs (c, p) = Inr (cs', (c', p')) \<Longrightarrow> length c = length p \<Longrightarrow>
   d < length p \<Longrightarrow>
     \<forall>j \<in> set cs. eligible st ds pv j \<longrightarrow> d \<in> set (claimed ds pv j)
         \<longrightarrow> priority_in st j \<le> p' ! d"
proof (induction cs arbitrary: c p cs')
  case Nil
  then show ?case by simp
next
  case (Cons i rest)
  from Cons.prems(1) obtain i' c1 p1 rest' where
    s: "behavior_step K ds pv st i (c, p) = Inr (i', (c1, p1))"
    and r: "iterate_behaviors K ds pv st rest (c1, p1) = Inr (rest', (c', p'))"
    by (rule iterate_behaviors_Cons_Inr)
  from behavior_step_result [OF s Cons.prems(2)] Cons.prems
  have len: "length c1 = length p1" "d < length p1" by simp_all
  from behavior_step_dominates [OF s Cons.prems(2,3)]
  have head: "eligible st ds pv i \<longrightarrow> d \<in> set (claimed ds pv i) \<longrightarrow> priority_in st i \<le> p1 ! d"
    by simp
  from iterate_behaviors_mono [OF r len] have "p1 ! d \<le> p' ! d" .
  with head have "eligible st ds pv i \<longrightarrow> d \<in> set (claimed ds pv i)
      \<longrightarrow> priority_in st i \<le> p' ! d"
    by auto
  with Cons.IH [OF r len] show ?case by simp
qed

lemma iterate_behaviors_append:
  "iterate_behaviors K ds pv st (xs @ ys) acc =
     (case iterate_behaviors K ds pv st xs acc of
        Inl e \<Rightarrow> Inl e
      | Inr (xs', acc') \<Rightarrow>
          (case iterate_behaviors K ds pv st ys acc' of
             Inl e \<Rightarrow> Inl e
           | Inr (ys', acc'') \<Rightarrow> Inr (xs' @ ys', acc'')))"
  by (induction xs arbitrary: acc) (auto split: sum.splits)

text \<open>The winner of a DOF.\<close>

lemma iterate_behaviors_winner:
  assumes run: "iterate_behaviors K ds pv st (xs @ i # ys) (c, p) = Inr (cs', (c', p'))"
    and len: "length c = length p" and d: "d < length p"
    and i: "eligible st ds pv i" "d \<in> set (claimed ds pv i)"
    and start: "p ! d < priority_in st i"
    and before: "\<forall>j \<in> set xs. eligible st ds pv j \<longrightarrow> d \<in> set (claimed ds pv j)
            \<longrightarrow> priority_in st j < priority_in st i"
    and after: "\<forall>j \<in> set ys. eligible st ds pv j \<longrightarrow> d \<in> set (claimed ds pv j)
            \<longrightarrow> priority_in st j \<le> priority_in st i"
  shows "c' ! d = proposal K ds pv i ! d \<and> p' ! d = priority_in st i"
proof -
  from run obtain xs' c1 p1 i' c2 p2 ys' where
    x: "iterate_behaviors K ds pv st xs (c, p) = Inr (xs', (c1, p1))"
    and s: "behavior_step K ds pv st i (c1, p1) = Inr (i', (c2, p2))"
    and y: "iterate_behaviors K ds pv st ys (c2, p2) = Inr (ys', (c', p'))"
    by (auto simp: iterate_behaviors_append split: sum.splits)
  from iterate_behaviors_lengths [OF x len] len d
  have len1: "length c1 = length p1" "d < length p1" by simp_all
  from iterate_behaviors_below [OF x len d start before]
  have lt: "p1 ! d < priority_in st i" .
  from behavior_step_result [OF s len1(1)] len1 i lt
  have w: "c2 ! d = proposal K ds pv i ! d" "p2 ! d = priority_in st i"
    and len2: "length c2 = length p2" "d < length p2"
    by auto
  from after w(2) have "\<forall>j \<in> set ys. eligible st ds pv j \<longrightarrow> d \<in> set (claimed ds pv j)
            \<longrightarrow> priority_in st j \<le> p2 ! d"
    by simp
  from iterate_behaviors_keep [OF y len2 this] w show ?thesis by simp
qed

text \<open>A container that leaves the scratch arrays alone can be taken out of the list.\<close>

lemma iterate_behaviors_skip:
  assumes "\<And>acc. behavior_step K ds pv st i acc = Inr (after_tick ds pv i, acc)"
  shows "map_sum id snd (iterate_behaviors K ds pv st (xs @ i # ys) acc)
           = map_sum id snd (iterate_behaviors K ds pv st (xs @ ys) acc)"
  by (simp add: iterate_behaviors_append assms split: sum.splits)

subsection \<open>One tick\<close>

lemma f_iterate_running:
  assumes "m_controller_process_values h = Some pv" and "active_mode h = Some am"
  shows "f_iterate K h =
     (case iterate_behaviors K (dofs am) pv (get_active_state (m_state_machine h))
             (m_behavior_containers h) (replicate K 0, replicate K 0) of
        Inl e \<Rightarrow> Inl e
      | Inr (cs, c, p) \<Rightarrow>
          Inr ([Publish \<lparr>control_mode = mode (get_active_state (m_state_machine h)),
                          dof_values = c\<rparr>],
               h\<lparr>m_behavior_containers := cs\<rparr>))"
  using assms
  by (simp add: f_iterate_def active_mode_def Let_def array_to_control_process_msg_def
      split: sum.splits)

lemma f_iterate_effects:
  assumes "m_controller_process_values h = Some pv" and "active_mode h = Some am"
  shows "map_sum id fst (f_iterate K h) =
     map_sum id (\<lambda>acc. [Publish \<lparr>control_mode = mode (get_active_state (m_state_machine h)),
                                  dof_values = fst acc\<rparr>])
       (map_sum id snd (iterate_behaviors K (dofs am) pv (get_active_state (m_state_machine h))
             (m_behavior_containers h) (replicate K 0, replicate K 0)))"
  by (simp add: f_iterate_running [OF assms] split: sum.splits)

text \<open>
  Who wins a DOF: the first container, in declaration order, among the eligible
  claimants of the DOF that hold the highest priority, when that priority is positive.
\<close>

lemma f_iterate_winner:
  assumes fb: "m_controller_process_values h = Some pv"
    and am: "active_mode h = Some am"
    and st: "st = get_active_state (m_state_machine h)"
    and cs: "m_behavior_containers h = xs @ i # ys"
    and range: "dofs_in_range K st (dofs am) pv (xs @ i # ys)"
    and i: "eligible st (dofs am) pv i" "d \<in> set (claimed (dofs am) pv i)"
    and pos: "0 < priority_in st i"
    and before: "\<forall>j \<in> set xs. eligible st (dofs am) pv j \<longrightarrow> d \<in> set (claimed (dofs am) pv j)
            \<longrightarrow> priority_in st j < priority_in st i"
    and after: "\<forall>j \<in> set ys. eligible st (dofs am) pv j \<longrightarrow> d \<in> set (claimed (dofs am) pv j)
            \<longrightarrow> priority_in st j \<le> priority_in st i"
  shows "\<exists>msg h'. f_iterate K h = Inr ([Publish msg], h')
           \<and> control_mode msg = mode st
           \<and> dof_values msg ! d = proposal K (dofs am) pv i ! d"
proof -
  let ?c0 = "replicate K (0::real)" and ?p0 = "replicate K (0::int)"
  from range i have d: "d < K" by (auto simp: dofs_in_range_def)
  from range have "\<forall>i \<in> set (xs @ i # ys). eligible st (dofs am) pv i
        \<longrightarrow> (\<forall>d \<in> set (claimed (dofs am) pv i). d < length ?p0)"
    by (simp add: dofs_in_range_def)
  from iterate_behaviors_defined [OF this, of ?c0 K] obtain c' p' where
    run: "iterate_behaviors K (dofs am) pv st (xs @ i # ys) (?c0, ?p0)
            = Inr (map (after_tick (dofs am) pv) (xs @ i # ys), (c', p'))"
    by auto
  have "c' ! d = proposal K (dofs am) pv i ! d \<and> p' ! d = priority_in st i"
    using d pos by (intro iterate_behaviors_winner [OF run _ _ i _ before after]) simp_all
  with run show ?thesis
    by (simp add: f_iterate_running [OF fb am] st [symmetric] cs)
qed

text \<open>Containers that leave both scratch arrays as they are.\<close>

lemma behavior_step_not_keyed:
  "opts_states i (name st) = None \<Longrightarrow>
     behavior_step K ds pv st i acc = Inr (after_tick ds pv i, acc)"
  by (simp add: behavior_step_unfold eligible_def)

lemma behavior_step_nonpositive:
  assumes key: "opts_states i (name st) = Some q" and q: "q \<le> 0"
    and range: "eligible st ds pv i \<longrightarrow> (\<forall>d \<in> set (claimed ds pv i). d < length p)"
    and len: "length c = length p" and nonneg: "\<forall>d<length p. 0 \<le> p ! d"
  shows "behavior_step K ds pv st i (c, p) = Inr (after_tick ds pv i, (c, p))"
proof -
  from behavior_step_defined [OF range] obtain c' p' where
    s: "behavior_step K ds pv st i (c, p) = Inr (after_tick ds pv i, (c', p'))"
    by fastforce
  from key q have "priority_in st i \<le> 0" by (simp add: priority_in_def)
  with nonneg have "\<forall>d<length p. \<not> priority_in st i > p ! d" by fastforce
  with behavior_step_result [OF s len]
  have "length c' = length c" "length p' = length p"
    "\<forall>d<length p. c' ! d = c ! d \<and> p' ! d = p ! d"
    by simp_all
  with len have "c' = c" "p' = p" by (simp_all add: list_eq_iff_nth_eq)
  with s show ?thesis by simp
qed

lemma iterate_behaviors_skip_nonpositive:
  assumes key: "opts_states i (name st) = Some q" and q: "q \<le> 0"
    and range: "eligible st ds pv i \<longrightarrow> (\<forall>d \<in> set (claimed ds pv i). d < length p)"
    and len: "length c = length p" and nonneg: "\<forall>d<length p. 0 \<le> p ! d"
  shows "map_sum id snd (iterate_behaviors K ds pv st (xs @ i # ys) (c, p))
           = map_sum id snd (iterate_behaviors K ds pv st (xs @ ys) (c, p))"
proof (cases "iterate_behaviors K ds pv st xs (c, p)")
  case (Inl e)
  then show ?thesis by (simp add: iterate_behaviors_append)
next
  case (Inr r)
  then obtain xs' c1 p1 where
    x: "iterate_behaviors K ds pv st xs (c, p) = Inr (xs', (c1, p1))"
    by (cases r) auto
  from iterate_behaviors_lengths [OF x len] len
  have len1: "length c1 = length p1" "length p1 = length p" by simp_all
  have "\<forall>d<length p1. 0 \<le> p1 ! d"
  proof (intro allI impI)
    fix d assume "d < length p1"
    with len1 have d: "d < length p" by simp
    from iterate_behaviors_mono [OF x len d] nonneg d show "0 \<le> p1 ! d" by fastforce
  qed
  from behavior_step_nonpositive [OF key q _ len1(1) this] range len1(2)
  have "behavior_step K ds pv st i (c1, p1) = Inr (after_tick ds pv i, (c1, p1))"
    by simp
  with x show ?thesis
    by (simp add: iterate_behaviors_append split: sum.splits)
qed

text \<open>
  The active DOFs reach the merge only through what the behaviors answer.
\<close>

lemma behavior_step_active_dofs:
  assumes "eligible st ds' pv i = eligible st ds pv i"
    and "claimed ds' pv i = claimed ds pv i"
    and "proposal K ds' pv i = proposal K ds pv i"
  shows "map_sum id snd (behavior_step K ds' pv st i acc)
           = map_sum id snd (behavior_step K ds pv st i acc)"
  by (simp add: behavior_step_unfold assms split: sum.splits)

lemma iterate_behaviors_active_dofs:
  "\<forall>j \<in> set cs. eligible st ds' pv j = eligible st ds pv j
      \<and> claimed ds' pv j = claimed ds pv j
      \<and> proposal K ds' pv j = proposal K ds pv j \<Longrightarrow>
     map_sum id snd (iterate_behaviors K ds' pv st cs acc)
       = map_sum id snd (iterate_behaviors K ds pv st cs acc)"
proof (induction cs arbitrary: acc)
  case Nil
  then show ?case by simp
next
  case (Cons i rest)
  from Cons.prems have s: "map_sum id snd (behavior_step K ds' pv st i acc)
           = map_sum id snd (behavior_step K ds pv st i acc)"
    by (intro behavior_step_active_dofs) simp_all
  from Cons.prems have "\<forall>j \<in> set rest. eligible st ds' pv j = eligible st ds pv j
      \<and> claimed ds' pv j = claimed ds pv j
      \<and> proposal K ds' pv j = proposal K ds pv j"
    by simp
  note r = Cons.IH [OF this]
  show ?case
  proof (cases "behavior_step K ds pv st i acc")
    case (Inl e)
    with s have "behavior_step K ds' pv st i acc = Inl e"
      by (cases "behavior_step K ds' pv st i acc") auto
    with Inl show ?thesis by simp
  next
    case (Inr a)
    then obtain i1 acc1 where 1: "behavior_step K ds pv st i acc = Inr (i1, acc1)"
      by (cases a) auto
    with s obtain i2 where 2: "behavior_step K ds' pv st i acc = Inr (i2, acc1)"
      by (cases "behavior_step K ds' pv st i acc") auto
    from r [of acc1] 1 2 show ?thesis
      by (cases "iterate_behaviors K ds pv st rest acc1";
          cases "iterate_behaviors K ds' pv st rest acc1") auto
  qed
qed

text \<open>The two early returns.\<close>

lemma f_iterate_idle:
  "m_controller_process_values h = None \<Longrightarrow> f_iterate K h = Inr ([], h)"
  by (simp add: f_iterate_def)

lemma f_iterate_no_mode:
  "m_controller_process_values h = Some pv \<Longrightarrow> active_mode h = None \<Longrightarrow>
     f_iterate K h = Inr ([Warn (mode_warning (mode (get_active_state (m_state_machine h))))], h)"
  by (simp add: f_iterate_def active_mode_def Let_def)

lemma active_mode_containers [simp]:
  "active_mode (h\<lparr>m_behavior_containers := cs\<rparr>) = active_mode h"
  by (simp add: active_mode_def)

lemma f_iterate_same_effects:
  assumes "\<And>pv am. m_controller_process_values h = Some pv \<Longrightarrow> active_mode h = Some am \<Longrightarrow>
      map_sum id snd (iterate_behaviors K (dofs am) pv (get_active_state (m_state_machine h))
             (m_behavior_containers h) (replicate K 0, replicate K 0))
      = map_sum id snd (iterate_behaviors K (dofs am) pv (get_active_state (m_state_machine h))
             cs (replicate K 0, replicate K 0))"
  shows "map_sum id fst (f_iterate K h)
           = map_sum id fst (f_iterate K (h\<lparr>m_behavior_containers := cs\<rparr>))"
proof (cases "m_controller_process_values h")
  case None
  then show ?thesis by (simp add: f_iterate_idle)
next
  case (Some pv)
  show ?thesis
  proof (cases "active_mode h")
    case None
    with Some show ?thesis by (simp add: f_iterate_no_mode)
  next
    case (Some am)
    from \<open>m_controller_process_values h = Some pv\<close> Some assms [of pv am]
    show ?thesis by (simp add: f_iterate_effects [where pv = pv and am = am])
  qed
qed

text \<open>Unfolding the examples, the vocabulary and the tick.\<close>

lemmas example_defs = helm_with_def steady_def machine_AB_def state_A_def state_B_def
  feedback_def mode_flight_def low_pitch_def high_pitch_def tie_one_def tie_two_def
  minus_five_def minus_one_def zero_one_def zero_two_def gated_def yaw_zero_def

lemmas tick_defs = get_active_state_def register_process_values_def set_active_dofs_def
  get_dofs_def control_process_to_array_def array_to_control_process_msg_def Let_def
  active_mode_def reply_def eligible_def claimed_def proposal_def priority_in_def
  dofs_in_range_def

lemmas run_defs = f_iterate_def behavior_step_def

section \<open>Arbitration by priority\<close>

text \<open>
  C1, as stated: of two eligible behaviors that claim a DOF, the one with the higher
  priority supplies the merged value. With the priorities \<open>- 5\<close> and \<open>- 1\<close> neither
  exceeds the initial entry \<open>0\<close> of \<^verbatim>\<open>dof_priority\<close>: the published pitch is the
  default \<open>0\<close> and not the proposal \<open>2\<close> of the behavior with priority \<open>- 1\<close>.
\<close>

theorem strict_priority_wins_counterexample:
  "eligible state_A [2, 4] feedback minus_five \<and> eligible state_A [2, 4] feedback minus_one
   \<and> 4 \<in> set (claimed [2, 4] feedback minus_five) \<and> 4 \<in> set (claimed [2, 4] feedback minus_one)
   \<and> priority_in state_A minus_five = - 5 \<and> priority_in state_A minus_one = - 1
   \<and> priority_in state_A minus_five < priority_in state_A minus_one
   \<and> proposal 6 [2, 4] feedback minus_one ! 4 = 2
   \<and> map_sum id fst (f_iterate 6 (helm_with [minus_five, minus_one]))
       = Inr [Publish \<lparr>control_mode = ''flight'', dof_values = [0, 0, 0, 0, 0, 0]\<rparr>]
   \<and> dof_values \<lparr>control_mode = ''flight'', dof_values = [0, 0, 0, 0, 0, 0]\<rparr> ! 4
       \<noteq> proposal 6 [2, 4] feedback minus_one ! 4"
  by (simp add: example_defs tick_defs run_defs eval_nat_numeral upt_rec)

text \<open>
  C1, amended. In a tick that runs, let an eligible behavior claim the DOF \<open>d\<close> with a
  priority that is positive and strictly higher than the priority of every other
  eligible behavior claiming \<open>d\<close>, and let every DOF claimed by an eligible behavior be
  an index of the scratch arrays. Then the tick publishes one command, and its value at
  \<open>d\<close> is the proposal of that behavior, wherever the behavior stands in the
  declaration order.
\<close>

theorem strict_priority_wins:
  assumes "m_controller_process_values h = Some pv"
    and "active_mode h = Some am"
    and "st = get_active_state (m_state_machine h)"
    and "m_behavior_containers h = xs @ i # ys"
    and "dofs_in_range K st (dofs am) pv (xs @ i # ys)"
    and "eligible st (dofs am) pv i" and "d \<in> set (claimed (dofs am) pv i)"
    and "0 < priority_in st i"
    and "\<forall>j \<in> set xs \<union> set ys.
            eligible st (dofs am) pv j \<longrightarrow> d \<in> set (claimed (dofs am) pv j)
              \<longrightarrow> priority_in st j < priority_in st i"
  shows "\<exists>msg h'. f_iterate K h = Inr ([Publish msg], h')
           \<and> dof_values msg ! d = proposal K (dofs am) pv i ! d"
proof -
  from assms(9) have
    "\<forall>j \<in> set xs. eligible st (dofs am) pv j \<longrightarrow> d \<in> set (claimed (dofs am) pv j)
            \<longrightarrow> priority_in st j < priority_in st i"
    "\<forall>j \<in> set ys. eligible st (dofs am) pv j \<longrightarrow> d \<in> set (claimed (dofs am) pv j)
            \<longrightarrow> priority_in st j \<le> priority_in st i"
    by fastforce+
  from f_iterate_winner [OF assms(1-8) this] show ?thesis by blast
qed

text \<open>Priorities 5 and 10 on pitch, declared in either order: the proposal of 10 wins.\<close>

theorem strict_priority_wins_witness:
  "(\<exists>msg h'. f_iterate 6 (helm_with [low_pitch, high_pitch]) = Inr ([Publish msg], h')
       \<and> dof_values msg ! 4 = 2)
   \<and> (\<exists>msg h'. f_iterate 6 (helm_with [high_pitch, low_pitch]) = Inr ([Publish msg], h')
       \<and> dof_values msg ! 4 = 2)"
  using strict_priority_wins [of "helm_with [low_pitch, high_pitch]" feedback mode_flight
      state_A "[low_pitch]" high_pitch "[]" 6 4]
    strict_priority_wins [of "helm_with [high_pitch, low_pitch]" feedback mode_flight
      state_A "[]" high_pitch "[low_pitch]" 6 4]
  by (simp add: example_defs tick_defs eval_nat_numeral upt_rec)

text \<open>
  C2, as stated: of the eligible behaviors that claim a DOF with equal priority, the
  first declared supplies the merged value. With two behaviors of priority \<open>0\<close> neither
  exceeds the initial entry \<open>0\<close> of \<^verbatim>\<open>dof_priority\<close>: the published pitch is the
  default \<open>0\<close> and not the proposal \<open>1\<close> of the first declared.
\<close>

theorem first_declared_wins_tie_counterexample:
  "eligible state_A [2, 4] feedback zero_one \<and> eligible state_A [2, 4] feedback zero_two
   \<and> 4 \<in> set (claimed [2, 4] feedback zero_one) \<and> 4 \<in> set (claimed [2, 4] feedback zero_two)
   \<and> priority_in state_A zero_one = 0 \<and> priority_in state_A zero_two = 0
   \<and> proposal 6 [2, 4] feedback zero_one ! 4 = 1
   \<and> map_sum id fst (f_iterate 6 (helm_with [zero_one, zero_two]))
       = Inr [Publish \<lparr>control_mode = ''flight'', dof_values = [0, 0, 0, 0, 0, 0]\<rparr>]
   \<and> dof_values \<lparr>control_mode = ''flight'', dof_values = [0, 0, 0, 0, 0, 0]\<rparr> ! 4
       \<noteq> proposal 6 [2, 4] feedback zero_one ! 4"
  by (simp add: example_defs tick_defs run_defs eval_nat_numeral upt_rec)

text \<open>
  C2, amended. In a tick that runs, let an eligible behavior claim the DOF \<open>d\<close> with a
  positive priority, let every eligible claimant of \<open>d\<close> declared before it have a
  strictly lower priority and every one declared after it an equal or lower priority,
  and let every DOF claimed by an eligible behavior be an index of the scratch arrays.
  Then the tick publishes one command whose value at \<open>d\<close> is the proposal of that
  behavior: the first declared of the behaviors that tie at the top wins, an equal or
  lower priority does not overwrite it, and another declaration order gives the tie
  to whoever is then first.
\<close>

theorem first_declared_wins_tie:
  assumes "m_controller_process_values h = Some pv"
    and "active_mode h = Some am"
    and "st = get_active_state (m_state_machine h)"
    and "m_behavior_containers h = xs @ i # ys"
    and "dofs_in_range K st (dofs am) pv (xs @ i # ys)"
    and "eligible st (dofs am) pv i" and "d \<in> set (claimed (dofs am) pv i)"
    and "0 < priority_in st i"
    and "\<forall>j \<in> set xs. eligible st (dofs am) pv j \<longrightarrow> d \<in> set (claimed (dofs am) pv j)
            \<longrightarrow> priority_in st j < priority_in st i"
    and "\<forall>j \<in> set ys. eligible st (dofs am) pv j \<longrightarrow> d \<in> set (claimed (dofs am) pv j)
            \<longrightarrow> priority_in st j \<le> priority_in st i"
  shows "\<exists>msg h'. f_iterate K h = Inr ([Publish msg], h')
           \<and> dof_values msg ! d = proposal K (dofs am) pv i ! d"
  using f_iterate_winner [OF assms] by blast

text \<open>Two behaviors of priority 5 on pitch: each order gives the value of the first.\<close>

theorem first_declared_wins_tie_witness:
  "(\<exists>msg h'. f_iterate 6 (helm_with [tie_one, tie_two]) = Inr ([Publish msg], h')
       \<and> dof_values msg ! 4 = 1)
   \<and> (\<exists>msg h'. f_iterate 6 (helm_with [tie_two, tie_one]) = Inr ([Publish msg], h')
       \<and> dof_values msg ! 4 = 2)"
  using first_declared_wins_tie [of "helm_with [tie_one, tie_two]" feedback mode_flight
      state_A "[]" tie_one "[tie_two]" 6 4]
    first_declared_wins_tie [of "helm_with [tie_two, tie_one]" feedback mode_flight
      state_A "[]" tie_two "[tie_one]" 6 4]
  by (simp add: example_defs tick_defs eval_nat_numeral upt_rec)

text \<open>
  C9. In a tick that runs with all claimed DOFs in range, a container whose priority
  for the active state is zero or negative can be taken out of the list without any
  change to the effects of the tick. Every recorded priority is at least \<open>0\<close>, the
  initial entry; a value other than the default \<open>0\<close> stands only at a DOF whose recorded
  priority is positive, and a positive recorded priority is the priority of an eligible
  claimant whose proposal is the published value.
\<close>

theorem nonpositive_priority_never_wins:
  assumes fb: "m_controller_process_values h = Some pv"
    and am: "active_mode h = Some am"
    and st: "st = get_active_state (m_state_machine h)"
    and cs: "m_behavior_containers h = xs @ i # ys"
    and range: "dofs_in_range K st (dofs am) pv (xs @ i # ys)"
    and key: "opts_states i (name st) = Some q" and q: "q \<le> 0"
  shows "map_sum id fst (f_iterate K h)
           = map_sum id fst (f_iterate K (h\<lparr>m_behavior_containers := xs @ ys\<rparr>))
       \<and> (\<exists>cs' c' p'.
            iterate_behaviors K (dofs am) pv st (xs @ i # ys) (replicate K 0, replicate K 0)
              = Inr (cs', (c', p'))
            \<and> f_iterate K h
                = Inr ([Publish \<lparr>control_mode = mode st, dof_values = c'\<rparr>],
                       h\<lparr>m_behavior_containers := cs'\<rparr>)
            \<and> (\<forall>d<K. 0 \<le> p' ! d
                  \<and> (c' ! d \<noteq> 0 \<longrightarrow> 0 < p' ! d)
                  \<and> (0 < p' ! d \<longrightarrow>
                        (\<exists>j \<in> set (xs @ i # ys).
                            eligible st (dofs am) pv j \<and> d \<in> set (claimed (dofs am) pv j)
                          \<and> priority_in st j = p' ! d
                          \<and> c' ! d = proposal K (dofs am) pv j ! d))))"
proof
  let ?c0 = "replicate K (0::real)" and ?p0 = "replicate K (0::int)"
  from range have r: "\<forall>j \<in> set (xs @ i # ys). eligible st (dofs am) pv j
        \<longrightarrow> (\<forall>d \<in> set (claimed (dofs am) pv j). d < length ?p0)"
    by (simp add: dofs_in_range_def)
  then have ri: "eligible st (dofs am) pv i
        \<longrightarrow> (\<forall>d \<in> set (claimed (dofs am) pv i). d < length ?p0)"
    by simp
  have skip: "map_sum id snd (iterate_behaviors K (dofs am) pv st (xs @ i # ys) (?c0, ?p0))
           = map_sum id snd (iterate_behaviors K (dofs am) pv st (xs @ ys) (?c0, ?p0))"
    by (rule iterate_behaviors_skip_nonpositive [OF key q ri]) simp_all
  show "map_sum id fst (f_iterate K h)
           = map_sum id fst (f_iterate K (h\<lparr>m_behavior_containers := xs @ ys\<rparr>))"
  proof (rule f_iterate_same_effects)
    fix pv' am'
    assume "m_controller_process_values h = Some pv'" "active_mode h = Some am'"
    with fb am have "pv' = pv" "am' = am" by simp_all
    with skip show "map_sum id snd (iterate_behaviors K (dofs am') pv'
             (get_active_state (m_state_machine h))
             (m_behavior_containers h) (replicate K 0, replicate K 0))
      = map_sum id snd (iterate_behaviors K (dofs am') pv' (get_active_state (m_state_machine h))
             (xs @ ys) (replicate K 0, replicate K 0))"
      by (simp add: st cs)
  qed
  from iterate_behaviors_defined [OF r, of ?c0 K] obtain c' p' where
    run: "iterate_behaviors K (dofs am) pv st (xs @ i # ys) (?c0, ?p0)
            = Inr (map (after_tick (dofs am) pv) (xs @ i # ys), (c', p'))"
    by auto
  have pub: "f_iterate K h
                = Inr ([Publish \<lparr>control_mode = mode st, dof_values = c'\<rparr>],
                       h\<lparr>m_behavior_containers := map (after_tick (dofs am) pv) (xs @ i # ys)\<rparr>)"
    using run by (simp add: f_iterate_running [OF fb am] st [symmetric] cs)
  have each: "0 \<le> p' ! d
                  \<and> (c' ! d \<noteq> 0 \<longrightarrow> 0 < p' ! d)
                  \<and> (0 < p' ! d \<longrightarrow>
                        (\<exists>j \<in> set (xs @ i # ys).
                            eligible st (dofs am) pv j \<and> d \<in> set (claimed (dofs am) pv j)
                          \<and> priority_in st j = p' ! d
                          \<and> c' ! d = proposal K (dofs am) pv j ! d))" if d: "d < K" for d
  proof -
    have "length ?c0 = length ?p0" "d < length ?p0" using d by simp_all
    from iterate_behaviors_provenance [OF run this] d
    show ?thesis by auto
  qed
  with run pub show "\<exists>cs' c' p'.
            iterate_behaviors K (dofs am) pv st (xs @ i # ys) (replicate K 0, replicate K 0)
              = Inr (cs', (c', p'))
            \<and> f_iterate K h
                = Inr ([Publish \<lparr>control_mode = mode st, dof_values = c'\<rparr>],
                       h\<lparr>m_behavior_containers := cs'\<rparr>)
            \<and> (\<forall>d<K. 0 \<le> p' ! d
                  \<and> (c' ! d \<noteq> 0 \<longrightarrow> 0 < p' ! d)
                  \<and> (0 < p' ! d \<longrightarrow>
                        (\<exists>j \<in> set (xs @ i # ys).
                            eligible st (dofs am) pv j \<and> d \<in> set (claimed (dofs am) pv j)
                          \<and> priority_in st j = p' ! d
                          \<and> c' ! d = proposal K (dofs am) pv j ! d)))"
    by blast
qed

text \<open>The only claimant of yaw has priority 0: its proposal 8 is not published.\<close>

theorem nonpositive_priority_never_wins_witness:
  "map_sum id fst (f_iterate 6 (helm_with [low_pitch, yaw_zero]))
     = map_sum id fst (f_iterate 6 (helm_with [low_pitch]))
   \<and> map_sum id fst (f_iterate 6 (helm_with [low_pitch, yaw_zero]))
       = Inr [Publish \<lparr>control_mode = ''flight'', dof_values = [0, 0, 0, 0, 1, 0]\<rparr>]
   \<and> proposal 6 [2, 4] feedback yaw_zero ! 5 = 8"
proof -
  let ?h = "helm_with [low_pitch, yaw_zero]"
  have fb: "m_controller_process_values ?h = Some feedback"
    by (simp add: helm_with_def)
  have am: "active_mode ?h = Some mode_flight"
    by (simp add: active_mode_def helm_with_def get_active_state_def machine_AB_def
        state_A_def mode_flight_def)
  have st: "state_A = get_active_state (m_state_machine ?h)"
    by (simp add: helm_with_def get_active_state_def machine_AB_def)
  have cs: "m_behavior_containers ?h = [low_pitch] @ yaw_zero # []"
    by (simp add: helm_with_def)
  have range: "dofs_in_range 6 state_A (dofs mode_flight) feedback ([low_pitch] @ yaw_zero # [])"
    by (simp add: example_defs tick_defs)
  have key: "opts_states yaw_zero (name state_A) = Some 0"
    by (simp add: yaw_zero_def steady_def state_A_def)
  have less: "?h\<lparr>m_behavior_containers := [low_pitch] @ []\<rparr> = helm_with [low_pitch]"
    by (simp add: helm_with_def)
  have q: "(0::int) \<le> 0"
    by simp
  from nonpositive_priority_never_wins [OF fb am st cs range key q]
  have a: "map_sum id fst (f_iterate 6 ?h) = map_sum id fst (f_iterate 6 (helm_with [low_pitch]))"
    by (simp only: less)
  have b: "map_sum id fst (f_iterate 6 (helm_with [low_pitch]))
       = Inr [Publish \<lparr>control_mode = ''flight'', dof_values = [0, 0, 0, 0, 1, 0]\<rparr>]"
    by (simp add: example_defs tick_defs run_defs eval_nat_numeral upt_rec)
  have c: "proposal 6 [2, 4] feedback yaw_zero ! 5 = 8"
    by (simp add: example_defs tick_defs eval_nat_numeral upt_rec)
  from a b c show ?thesis by simp
qed

text \<open>
  C10, as stated: a claimed DOF that is not among the DOFs of the active mode is still
  written into the merged command. Yaw is not a DOF of the mode \<open>flight\<close>, and the only
  behavior claims it with priority \<open>0\<close>, which does not exceed the initial entry \<open>0\<close>
  of \<^verbatim>\<open>dof_priority\<close>: the published yaw is the default \<open>0\<close> and not the proposal \<open>8\<close>.
\<close>

theorem inactive_dof_counterexample:
  "eligible state_A [2, 4] feedback yaw_zero
   \<and> 5 \<in> set (claimed [2, 4] feedback yaw_zero)
   \<and> active_mode (helm_with [yaw_zero]) = Some mode_flight
   \<and> 5 \<notin> set (dofs mode_flight)
   \<and> proposal 6 [2, 4] feedback yaw_zero ! 5 = 8
   \<and> map_sum id fst (f_iterate 6 (helm_with [yaw_zero]))
       = Inr [Publish \<lparr>control_mode = ''flight'', dof_values = [0, 0, 0, 0, 0, 0]\<rparr>]
   \<and> dof_values \<lparr>control_mode = ''flight'', dof_values = [0, 0, 0, 0, 0, 0]\<rparr> ! 5
       \<noteq> proposal 6 [2, 4] feedback yaw_zero ! 5"
  by (simp add: example_defs tick_defs run_defs eval_nat_numeral upt_rec)

text \<open>
  C10, amended. The merge does not look at the DOFs of the active mode: in a tick that
  runs, a DOF \<open>d\<close> that is not among them is arbitrated like any other. If some eligible
  behavior claims \<open>d\<close> with a positive priority, the published value at \<open>d\<close> is the
  proposal of an eligible claimant of \<open>d\<close> that holds the highest priority, and of the
  first declared such claimant; if every eligible claimant of \<open>d\<close> has a priority of
  zero or less, the published value at \<open>d\<close> is the default \<open>0\<close>. The list of active DOFs
  is handed to the behaviors and has no other part in the merge: with any other list
  under which the behaviors answer alike, the scratch arrays come out the same.
\<close>

theorem inactive_dof_arbitrated:
  assumes fb: "m_controller_process_values h = Some pv"
    and am: "active_mode h = Some am"
    and st: "st = get_active_state (m_state_machine h)"
    and range: "dofs_in_range K st (dofs am) pv (m_behavior_containers h)"
    and d: "d < K" and out: "d \<notin> set (dofs am)"
  shows "\<exists>msg h'. f_iterate K h = Inr ([Publish msg], h')
     \<and> ((\<exists>j \<in> set (m_behavior_containers h).
             eligible st (dofs am) pv j \<and> d \<in> set (claimed (dofs am) pv j)
           \<and> 0 < priority_in st j) \<longrightarrow>
         (\<exists>j \<in> set (m_behavior_containers h).
             eligible st (dofs am) pv j \<and> d \<in> set (claimed (dofs am) pv j)
           \<and> 0 < priority_in st j
           \<and> (\<forall>k \<in> set (m_behavior_containers h).
                  eligible st (dofs am) pv k \<longrightarrow> d \<in> set (claimed (dofs am) pv k)
                    \<longrightarrow> priority_in st k \<le> priority_in st j)
           \<and> dof_values msg ! d = proposal K (dofs am) pv j ! d))
     \<and> ((\<forall>j \<in> set (m_behavior_containers h).
             eligible st (dofs am) pv j \<longrightarrow> d \<in> set (claimed (dofs am) pv j)
               \<longrightarrow> priority_in st j \<le> 0) \<longrightarrow>
         dof_values msg ! d = 0)
     \<and> (\<forall>xs i ys.
            m_behavior_containers h = xs @ i # ys
          \<and> eligible st (dofs am) pv i \<and> d \<in> set (claimed (dofs am) pv i)
          \<and> 0 < priority_in st i
          \<and> (\<forall>j \<in> set xs. eligible st (dofs am) pv j \<longrightarrow> d \<in> set (claimed (dofs am) pv j)
                \<longrightarrow> priority_in st j < priority_in st i)
          \<and> (\<forall>j \<in> set ys. eligible st (dofs am) pv j \<longrightarrow> d \<in> set (claimed (dofs am) pv j)
                \<longrightarrow> priority_in st j \<le> priority_in st i) \<longrightarrow>
          dof_values msg ! d = proposal K (dofs am) pv i ! d)
     \<and> (\<forall>ds'. (\<forall>j \<in> set (m_behavior_containers h).
                    eligible st ds' pv j = eligible st (dofs am) pv j
                  \<and> claimed ds' pv j = claimed (dofs am) pv j
                  \<and> proposal K ds' pv j = proposal K (dofs am) pv j) \<longrightarrow>
              map_sum id snd (iterate_behaviors K ds' pv st (m_behavior_containers h)
                                (replicate K 0, replicate K 0))
                = map_sum id snd (iterate_behaviors K (dofs am) pv st (m_behavior_containers h)
                                    (replicate K 0, replicate K 0)))"
proof -
  let ?cs = "m_behavior_containers h"
  let ?c0 = "replicate K (0::real)" and ?p0 = "replicate K (0::int)"
  have len: "length ?c0 = length ?p0" "d < length ?p0" using d by simp_all
  from range have "\<forall>i \<in> set ?cs. eligible st (dofs am) pv i
        \<longrightarrow> (\<forall>d \<in> set (claimed (dofs am) pv i). d < length ?p0)"
    by (simp add: dofs_in_range_def)
  from iterate_behaviors_defined [OF this, of ?c0 K] obtain c' p' where
    run: "iterate_behaviors K (dofs am) pv st ?cs (?c0, ?p0)
            = Inr (map (after_tick (dofs am) pv) ?cs, (c', p'))"
    by auto
  let ?msg = "\<lparr>control_mode = mode st, dof_values = c'\<rparr>"
  have pub: "f_iterate K h
      = Inr ([Publish ?msg], h\<lparr>m_behavior_containers := map (after_tick (dofs am) pv) ?cs\<rparr>)"
    using run by (simp add: f_iterate_running [OF fb am] st [symmetric])
  note prov = iterate_behaviors_provenance [OF run len]
  note dom = iterate_behaviors_dominates [OF run len]
  have A: "\<exists>j \<in> set ?cs.
             eligible st (dofs am) pv j \<and> d \<in> set (claimed (dofs am) pv j)
           \<and> 0 < priority_in st j
           \<and> (\<forall>k \<in> set ?cs.
                  eligible st (dofs am) pv k \<longrightarrow> d \<in> set (claimed (dofs am) pv k)
                    \<longrightarrow> priority_in st k \<le> priority_in st j)
           \<and> dof_values ?msg ! d = proposal K (dofs am) pv j ! d"
    if "\<exists>j \<in> set ?cs. eligible st (dofs am) pv j \<and> d \<in> set (claimed (dofs am) pv j)
           \<and> 0 < priority_in st j"
  proof -
    from that dom have "0 < p' ! d" by fastforce
    with prov d obtain j where j: "j \<in> set ?cs" "eligible st (dofs am) pv j"
      "d \<in> set (claimed (dofs am) pv j)" "priority_in st j = p' ! d"
      "c' ! d = proposal K (dofs am) pv j ! d"
      by auto
    with \<open>0 < p' ! d\<close> dom show ?thesis
      by (intro bexI [of _ j]) auto
  qed
  have B: "dof_values ?msg ! d = 0"
    if "\<forall>j \<in> set ?cs. eligible st (dofs am) pv j \<longrightarrow> d \<in> set (claimed (dofs am) pv j)
               \<longrightarrow> priority_in st j \<le> 0"
  proof -
    from prov d that have "c' ! d = ?c0 ! d" by fastforce
    with d show ?thesis by simp
  qed
  have C: "dof_values ?msg ! d = proposal K (dofs am) pv i ! d"
    if "m_behavior_containers h = xs @ i # ys
          \<and> eligible st (dofs am) pv i \<and> d \<in> set (claimed (dofs am) pv i)
          \<and> 0 < priority_in st i
          \<and> (\<forall>j \<in> set xs. eligible st (dofs am) pv j \<longrightarrow> d \<in> set (claimed (dofs am) pv j)
                \<longrightarrow> priority_in st j < priority_in st i)
          \<and> (\<forall>j \<in> set ys. eligible st (dofs am) pv j \<longrightarrow> d \<in> set (claimed (dofs am) pv j)
                \<longrightarrow> priority_in st j \<le> priority_in st i)" for xs i ys
  proof -
    from that run have run': "iterate_behaviors K (dofs am) pv st (xs @ i # ys) (?c0, ?p0)
            = Inr (map (after_tick (dofs am) pv) ?cs, (c', p'))"
      by simp
    from that d have "?p0 ! d < priority_in st i" by simp
    from iterate_behaviors_winner [OF run' len _ _ this] that
    show ?thesis by simp
  qed
  have D: "map_sum id snd (iterate_behaviors K ds' pv st ?cs (?c0, ?p0))
                = map_sum id snd (iterate_behaviors K (dofs am) pv st ?cs (?c0, ?p0))"
    if "\<forall>j \<in> set ?cs. eligible st ds' pv j = eligible st (dofs am) pv j
                  \<and> claimed ds' pv j = claimed (dofs am) pv j
                  \<and> proposal K ds' pv j = proposal K (dofs am) pv j" for ds'
    using that by (rule iterate_behaviors_active_dofs)
  from pub A B C D show ?thesis
    by (intro exI [of _ ?msg] exI [of _ "h\<lparr>m_behavior_containers := map (after_tick (dofs am) pv) ?cs\<rparr>"]
        conjI allI impI) blast+
qed

text \<open>
  Yaw is not a DOF of the mode \<open>flight\<close>. Claimed with priority 10, the yaw proposal 9
  is published; claimed with priority 0 only, yaw stays 0.
\<close>

theorem inactive_dof_arbitrated_witness:
  "5 \<notin> set (dofs mode_flight)
   \<and> (\<exists>msg h'. f_iterate 6 (helm_with [low_pitch, high_pitch]) = Inr ([Publish msg], h')
       \<and> dof_values msg ! 5 = 9)
   \<and> (\<exists>msg h'. f_iterate 6 (helm_with [low_pitch, yaw_zero]) = Inr ([Publish msg], h')
       \<and> dof_values msg ! 5 = 0)
   \<and> map_sum id snd (iterate_behaviors 6 [0, 1, 2, 3, 4, 5] feedback state_A
         [low_pitch, high_pitch] (replicate 6 0, replicate 6 0))
       = map_sum id snd (iterate_behaviors 6 [2, 4] feedback state_A
         [low_pitch, high_pitch] (replicate 6 0, replicate 6 0))"
proof -
  let ?h = "helm_with [low_pitch, high_pitch]"
  let ?g = "helm_with [low_pitch, yaw_zero]"
  have out: "5 \<notin> set (dofs mode_flight)"
    by (simp add: mode_flight_def)
  have flight: "dofs mode_flight = [2, 4]"
    by (simp add: mode_flight_def)
  have five: "(5::nat) < 6"
    by simp
  have fb: "m_controller_process_values ?h = Some feedback"
    "m_controller_process_values ?g = Some feedback"
    by (simp_all add: helm_with_def)
  have am: "active_mode ?h = Some mode_flight" "active_mode ?g = Some mode_flight"
    by (simp_all add: active_mode_def helm_with_def get_active_state_def machine_AB_def
        state_A_def mode_flight_def)
  have st: "state_A = get_active_state (m_state_machine ?h)"
    "state_A = get_active_state (m_state_machine ?g)"
    by (simp_all add: helm_with_def get_active_state_def machine_AB_def)
  have cs: "m_behavior_containers ?h = [low_pitch, high_pitch]"
    "m_behavior_containers ?g = [low_pitch, yaw_zero]"
    by (simp_all add: helm_with_def)
  have range: "dofs_in_range 6 state_A (dofs mode_flight) feedback (m_behavior_containers ?h)"
    "dofs_in_range 6 state_A (dofs mode_flight) feedback (m_behavior_containers ?g)"
    by (simp_all add: example_defs tick_defs)
  have wins: "m_behavior_containers ?h = [low_pitch] @ high_pitch # []
      \<and> eligible state_A (dofs mode_flight) feedback high_pitch
      \<and> 5 \<in> set (claimed (dofs mode_flight) feedback high_pitch)
      \<and> 0 < priority_in state_A high_pitch
      \<and> (\<forall>j \<in> set [low_pitch]. eligible state_A (dofs mode_flight) feedback j
            \<longrightarrow> 5 \<in> set (claimed (dofs mode_flight) feedback j)
            \<longrightarrow> priority_in state_A j < priority_in state_A high_pitch)
      \<and> (\<forall>j \<in> set []. eligible state_A (dofs mode_flight) feedback j
            \<longrightarrow> 5 \<in> set (claimed (dofs mode_flight) feedback j)
            \<longrightarrow> priority_in state_A j \<le> priority_in state_A high_pitch)"
    by (simp add: example_defs tick_defs)
  have val: "proposal 6 (dofs mode_flight) feedback high_pitch ! 5 = 9"
    by (simp add: example_defs tick_defs eval_nat_numeral upt_rec)
  have same: "\<forall>j \<in> set (m_behavior_containers ?h).
      eligible state_A [0, 1, 2, 3, 4, 5] feedback j = eligible state_A (dofs mode_flight) feedback j
      \<and> claimed [0, 1, 2, 3, 4, 5] feedback j = claimed (dofs mode_flight) feedback j
      \<and> proposal 6 [0, 1, 2, 3, 4, 5] feedback j = proposal 6 (dofs mode_flight) feedback j"
    by (simp add: example_defs tick_defs)
  have none: "\<forall>j \<in> set (m_behavior_containers ?g).
      eligible state_A (dofs mode_flight) feedback j
        \<longrightarrow> 5 \<in> set (claimed (dofs mode_flight) feedback j)
        \<longrightarrow> priority_in state_A j \<le> 0"
    by (simp add: example_defs tick_defs)
  from inactive_dof_arbitrated [OF fb(1) am(1) st(1) range(1) five out]
  obtain msg h' where
    p: "f_iterate 6 ?h = Inr ([Publish msg], h')"
    and w: "\<forall>xs i ys.
            m_behavior_containers ?h = xs @ i # ys
          \<and> eligible state_A (dofs mode_flight) feedback i
          \<and> 5 \<in> set (claimed (dofs mode_flight) feedback i)
          \<and> 0 < priority_in state_A i
          \<and> (\<forall>j \<in> set xs. eligible state_A (dofs mode_flight) feedback j
                \<longrightarrow> 5 \<in> set (claimed (dofs mode_flight) feedback j)
                \<longrightarrow> priority_in state_A j < priority_in state_A i)
          \<and> (\<forall>j \<in> set ys. eligible state_A (dofs mode_flight) feedback j
                \<longrightarrow> 5 \<in> set (claimed (dofs mode_flight) feedback j)
                \<longrightarrow> priority_in state_A j \<le> priority_in state_A i) \<longrightarrow>
          dof_values msg ! 5 = proposal 6 (dofs mode_flight) feedback i ! 5"
    and i: "\<forall>ds'. (\<forall>j \<in> set (m_behavior_containers ?h).
                    eligible state_A ds' feedback j = eligible state_A (dofs mode_flight) feedback j
                  \<and> claimed ds' feedback j = claimed (dofs mode_flight) feedback j
                  \<and> proposal 6 ds' feedback j = proposal 6 (dofs mode_flight) feedback j) \<longrightarrow>
              map_sum id snd (iterate_behaviors 6 ds' feedback state_A (m_behavior_containers ?h)
                                (replicate 6 0, replicate 6 0))
                = map_sum id snd (iterate_behaviors 6 (dofs mode_flight) feedback state_A
                                    (m_behavior_containers ?h) (replicate 6 0, replicate 6 0))"
    by blast
  from w wins have "dof_values msg ! 5 = proposal 6 (dofs mode_flight) feedback high_pitch ! 5"
    by blast
  with p val have a: "\<exists>msg h'. f_iterate 6 ?h = Inr ([Publish msg], h') \<and> dof_values msg ! 5 = 9"
    by auto
  from inactive_dof_arbitrated [OF fb(2) am(2) st(2) range(2) five out]
  obtain msg2 h2 where
    p2: "f_iterate 6 ?g = Inr ([Publish msg2], h2)"
    and z: "(\<forall>j \<in> set (m_behavior_containers ?g).
             eligible state_A (dofs mode_flight) feedback j
               \<longrightarrow> 5 \<in> set (claimed (dofs mode_flight) feedback j)
               \<longrightarrow> priority_in state_A j \<le> 0) \<longrightarrow>
         dof_values msg2 ! 5 = 0"
    by blast
  from z none have "dof_values msg2 ! 5 = 0" by blast
  with p2 have b: "\<exists>msg h'. f_iterate 6 ?g = Inr ([Publish msg], h') \<and> dof_values msg ! 5 = 0"
    by auto
  from i same have "map_sum id snd (iterate_behaviors 6 [0, 1, 2, 3, 4, 5] feedback state_A
        (m_behavior_containers ?h) (replicate 6 0, replicate 6 0))
       = map_sum id snd (iterate_behaviors 6 (dofs mode_flight) feedback state_A
        (m_behavior_containers ?h) (replicate 6 0, replicate 6 0))"
    by blast
  then have c: "map_sum id snd (iterate_behaviors 6 [0, 1, 2, 3, 4, 5] feedback state_A
         [low_pitch, high_pitch] (replicate 6 0, replicate 6 0))
       = map_sum id snd (iterate_behaviors 6 [2, 4] feedback state_A
         [low_pitch, high_pitch] (replicate 6 0, replicate 6 0))"
    by (simp only: cs flight)
  from out a b c show ?thesis by blast
qed

section \<open>Gates of a tick\<close>

text \<open>
  C6. Without feedback the tick has no effect, leaves the helm as it is and is no
  error. With feedback but no entry of the mode table for the mode of the active state,
  the tick logs the warning, publishes nothing and leaves the helm as it is. A command
  is published only when there is feedback and the mode has an entry. (The log macro
  limits the rate of the warning; time is outside this model.)
\<close>

theorem tick_preconditions:
  "(m_controller_process_values h = None \<longrightarrow> f_iterate K h = Inr ([], h))
   \<and> (m_controller_process_values h \<noteq> None \<and> active_mode h = None \<longrightarrow>
        f_iterate K h
          = Inr ([Warn (mode_warning (mode (get_active_state (m_state_machine h))))], h))
   \<and> (\<forall>effects h' msg. f_iterate K h = Inr (effects, h') \<and> Publish msg \<in> set effects \<longrightarrow>
        m_controller_process_values h \<noteq> None \<and> active_mode h \<noteq> None)"
proof (intro conjI impI allI)
  assume "m_controller_process_values h = None"
  then show "f_iterate K h = Inr ([], h)" by (rule f_iterate_idle)
next
  assume "m_controller_process_values h \<noteq> None \<and> active_mode h = None"
  then show "f_iterate K h
          = Inr ([Warn (mode_warning (mode (get_active_state (m_state_machine h))))], h)"
    by (auto simp: f_iterate_no_mode)
next
  fix effects h' msg
  assume p: "f_iterate K h = Inr (effects, h') \<and> Publish msg \<in> set effects"
  show "m_controller_process_values h \<noteq> None"
  proof
    assume "m_controller_process_values h = None"
    with p show False by (auto simp: f_iterate_idle)
  qed
  show "active_mode h \<noteq> None"
  proof
    assume n: "active_mode h = None"
    show False
    proof (cases "m_controller_process_values h")
      case None
      with p show False by (auto simp: f_iterate_idle)
    next
      case (Some pv)
      with n p show False by (auto simp: f_iterate_no_mode)
    qed
  qed
qed

text \<open>No feedback; a mode table without \<open>flight\<close>; and the tick that does publish.\<close>

theorem tick_preconditions_witness:
  "f_iterate 6 ((helm_with [low_pitch])\<lparr>m_controller_process_values := None\<rparr>)
     = Inr ([], (helm_with [low_pitch])\<lparr>m_controller_process_values := None\<rparr>)
   \<and> f_iterate 6 ((helm_with [low_pitch])\<lparr>m_controller_modes := [\<lparr>ControlMode.name = ''hold'', dofs = [2]\<rparr>]\<rparr>)
     = Inr ([Warn (mode_warning ''flight'')],
            (helm_with [low_pitch])\<lparr>m_controller_modes := [\<lparr>ControlMode.name = ''hold'', dofs = [2]\<rparr>]\<rparr>)
   \<and> m_controller_process_values (helm_with [low_pitch]) \<noteq> None
   \<and> active_mode (helm_with [low_pitch]) \<noteq> None"
  using tick_preconditions [of "(helm_with [low_pitch])\<lparr>m_controller_process_values := None\<rparr>" 6]
    tick_preconditions [of "(helm_with [low_pitch])\<lparr>m_controller_modes := [\<lparr>ControlMode.name = ''hold'', dofs = [2]\<rparr>]\<rparr>" 6]
    tick_preconditions [of "helm_with [low_pitch]" 6]
  by (simp add: example_defs tick_defs)

text \<open>
  C7. A container whose priority map has no key for the name of the active state
  leaves both scratch arrays as they are, whatever its behavior returns, and the tick
  has the same effects as the tick without that container.
\<close>

theorem state_gating:
  assumes "opts_states i (name (get_active_state (m_state_machine h))) = None"
    and "m_behavior_containers h = xs @ i # ys"
  shows "(\<forall>ds pv acc. behavior_step K ds pv (get_active_state (m_state_machine h)) i acc
            = Inr (after_tick ds pv i, acc))
       \<and> map_sum id fst (f_iterate K h)
           = map_sum id fst (f_iterate K (h\<lparr>m_behavior_containers := xs @ ys\<rparr>))"
proof
  show "\<forall>ds pv acc. behavior_step K ds pv (get_active_state (m_state_machine h)) i acc
            = Inr (after_tick ds pv i, acc)"
    using assms(1) by (simp add: behavior_step_not_keyed)
  show "map_sum id fst (f_iterate K h)
           = map_sum id fst (f_iterate K (h\<lparr>m_behavior_containers := xs @ ys\<rparr>))"
    by (rule f_iterate_same_effects)
       (simp add: assms(2) iterate_behaviors_skip behavior_step_not_keyed [OF assms(1)])
qed

text \<open>A behavior keyed for state \<open>B\<close> only proposes pitch 7 with priority 100 in state \<open>A\<close>.\<close>

theorem state_gating_witness:
  "map_sum id fst (f_iterate 6 (helm_with [low_pitch, gated, high_pitch]))
     = map_sum id fst (f_iterate 6 (helm_with [low_pitch, high_pitch]))
   \<and> map_sum id fst (f_iterate 6 (helm_with [low_pitch, gated, high_pitch]))
       = Inr [Publish \<lparr>control_mode = ''flight'', dof_values = [0, 0, 0, 0, 2, 9]\<rparr>]
   \<and> behavior_step 6 [2, 4] feedback state_A gated ([0, 0, 0, 0, 1, 0], [0, 0, 0, 0, 5, 0])
       = Inr (after_tick [2, 4] feedback gated, ([0, 0, 0, 0, 1, 0], [0, 0, 0, 0, 5, 0]))"
proof -
  let ?h = "helm_with [low_pitch, gated, high_pitch]"
  have st: "get_active_state (m_state_machine ?h) = state_A"
    by (simp add: helm_with_def get_active_state_def machine_AB_def)
  have key: "opts_states gated (name (get_active_state (m_state_machine ?h))) = None"
    by (simp add: st) (simp add: gated_def steady_def state_A_def)
  have cs: "m_behavior_containers ?h = [low_pitch] @ gated # [high_pitch]"
    by (simp add: helm_with_def)
  have less: "?h\<lparr>m_behavior_containers := [low_pitch] @ [high_pitch]\<rparr>
      = helm_with [low_pitch, high_pitch]"
    by (simp add: helm_with_def)
  note w = state_gating [OF key cs, of 6]
  from w have a: "map_sum id fst (f_iterate 6 ?h)
     = map_sum id fst (f_iterate 6 (helm_with [low_pitch, high_pitch]))"
    by (simp only: less)
  have b: "map_sum id fst (f_iterate 6 (helm_with [low_pitch, high_pitch]))
       = Inr [Publish \<lparr>control_mode = ''flight'', dof_values = [0, 0, 0, 0, 2, 9]\<rparr>]"
    by (simp add: example_defs tick_defs run_defs eval_nat_numeral upt_rec)
  from w have c: "behavior_step 6 [2, 4] feedback state_A gated ([0, 0, 0, 0, 1, 0], [0, 0, 0, 0, 5, 0])
       = Inr (after_tick [2, 4] feedback gated, ([0, 0, 0, 0, 1, 0], [0, 0, 0, 0, 5, 0]))"
    by (simp only: st)
  from a b c show ?thesis by simp
qed

end
